theory Spec2Isabelle
  imports Main
begin

section \<open>Python values and errors\<close>

text \<open>
  The gate functions of \<^verbatim>\<open>logic_gates.py\<close> are dynamically typed; the values they are
  applied to in this repository are booleans and integers (the truth-table generator
  passes the integers 0 and 1). \<open>PNone\<close> stands for a value that is neither: it has a
  truth value, but it cannot be added to an integer nor converted by \<^verbatim>\<open>int()\<close>.
\<close>

datatype pyval = PNone | PBool bool | PInt int

text \<open>
  Python raises \<^verbatim>\<open>TypeError\<close> both for a call with the wrong number of arguments and for
  an operand of the wrong type; the two are kept apart here. \<^verbatim>\<open>ValueError\<close> is what
  \<^verbatim>\<open>int(s, base)\<close> raises on a malformed literal.
\<close>

datatype error = TypeError_arguments | TypeError_operand | ValueError

text \<open>Truth value testing: \<^verbatim>\<open>None\<close>, \<^verbatim>\<open>False\<close> and \<^verbatim>\<open>0\<close> are false.\<close>

fun truthy :: "pyval \<Rightarrow> bool" where
  "truthy PNone = False"
| "truthy (PBool b) = b"
| "truthy (PInt i) = (i \<noteq> 0)"

text \<open>\<^verbatim>\<open>acc + x\<close> for an integer accumulator; \<^verbatim>\<open>bool\<close> is a subclass of \<^verbatim>\<open>int\<close>.\<close>

fun py_add :: "int \<Rightarrow> pyval \<Rightarrow> error + int" where
  "py_add acc PNone = Inl TypeError_operand"
| "py_add acc (PBool b) = Inr (acc + (if b then 1 else 0))"
| "py_add acc (PInt i) = Inr (acc + i)"

text \<open>\<^verbatim>\<open>sum(inputs)\<close>: the accumulator starts at 0 and the first failing addition raises.\<close>

fun py_sum :: "int \<Rightarrow> pyval list \<Rightarrow> error + int" where
  "py_sum acc [] = Inr acc"
| "py_sum acc (x # xs) =
     (case py_add acc x of Inl e \<Rightarrow> Inl e | Inr acc' \<Rightarrow> py_sum acc' xs)"

text \<open>\<^verbatim>\<open>int(x)\<close> for a value that is not a string.\<close>

fun py_int :: "pyval \<Rightarrow> error + int" where
  "py_int PNone = Inl TypeError_operand"
| "py_int (PBool b) = Inr (if b then 1 else 0)"
| "py_int (PInt i) = Inr i"

section \<open>Logic gates (\<^verbatim>\<open>logic_gates.py\<close>)\<close>

text \<open>\<^verbatim>\<open>all(inputs)\<close> and \<^verbatim>\<open>any(inputs)\<close> test the truth value of each element.\<close>

definition AND :: "pyval list \<Rightarrow> bool" where
  "AND inputs = (if inputs = [] then True else list_all truthy inputs)"

definition OR :: "pyval list \<Rightarrow> bool" where
  "OR inputs = (if inputs = [] then False else list_ex truthy inputs)"

definition NOT :: "pyval \<Rightarrow> bool" where
  "NOT input_val = (\<not> truthy input_val)"

definition XOR :: "pyval list \<Rightarrow> error + bool" where
  "XOR inputs =
     (if inputs = [] then Inr False
      else case py_sum 0 inputs of
             Inl e \<Rightarrow> Inl e
           | Inr true_count \<Rightarrow> Inr (true_count mod 2 = 1))"

definition NAND :: "pyval list \<Rightarrow> bool" where
  "NAND inputs = NOT (PBool (AND inputs))"

definition NOR :: "pyval list \<Rightarrow> bool" where
  "NOR inputs = NOT (PBool (OR inputs))"

definition XNOR :: "pyval list \<Rightarrow> error + bool" where
  "XNOR inputs =
     (case XOR inputs of Inl e \<Rightarrow> Inl e | Inr r \<Rightarrow> Inr (NOT (PBool r)))"

text \<open>The inputs the docstrings name: booleans, and the bits 0 and 1 of a truth table.\<close>

fun canonical :: "pyval \<Rightarrow> bool" where
  "canonical PNone = False"
| "canonical (PBool b) = True"
| "canonical (PInt i) = (i = 0 \<or> i = 1)"

text \<open>The number of inputs whose truth value is true.\<close>

definition truthy_count :: "pyval list \<Rightarrow> nat" where
  "truthy_count inputs = length (filter truthy inputs)"

section \<open>Truth tables (\<^verbatim>\<open>truth_table.py\<close>)\<close>

text \<open>
  A Python callable as \<open>generate_table\<close> uses it: called with positional arguments only.
  \<open>Fixed k body\<close> is a function or lambda with \<open>k\<close> positional parameters, such as
  \<^verbatim>\<open>lambda a, b: AND(a, b)\<close>; \<open>Variadic body\<close> is one declared with \<^verbatim>\<open>*inputs\<close>, such as
  \<open>AND\<close> itself. The body receives the argument tuple and returns a value or raises.
\<close>

datatype pyfunc =
    Fixed nat "pyval list \<Rightarrow> error + pyval"
  | Variadic "pyval list \<Rightarrow> error + pyval"

text \<open>
  \<^verbatim>\<open>f(*args)\<close>: a call with a number of arguments other than the number of parameters
  raises \<^verbatim>\<open>TypeError\<close> before the body runs.
\<close>

fun call :: "pyfunc \<Rightarrow> pyval list \<Rightarrow> error + pyval" where
  "call (Fixed k body) args =
     (if length args = k then body args else Inl TypeError_arguments)"
| "call (Variadic body) args = body args"

text \<open>
  \<^verbatim>\<open>itertools.product(pool, repeat=n)\<close>, after the equivalent code of the library's
  documentation: \<^verbatim>\<open>result = [[]]\<close>, then for each of the \<open>n\<close> pools
  \<^verbatim>\<open>result = [x+[y] for x in result for y in pool]\<close>.
\<close>

definition product_step :: "'a list \<Rightarrow> 'a list list \<Rightarrow> 'a list list" where
  "product_step pool result = concat (map (\<lambda>x. map (\<lambda>y. x @ [y]) pool) result)"

definition product_repeat :: "'a list \<Rightarrow> nat \<Rightarrow> 'a list list" where
  "product_repeat pool repeat =
     foldl (\<lambda>result pool. product_step pool result) [[]] (replicate repeat pool)"

text \<open>
  The body of the loop of \<open>generate_table\<close>: call the expression on the combination,
  convert the result with \<^verbatim>\<open>int\<close> and append it to the combination.
\<close>

definition eval_row :: "pyfunc \<Rightarrow> int list \<Rightarrow> error + int list" where
  "eval_row expression_func combo =
     (case call expression_func (map PInt combo) of
        Inl e \<Rightarrow> Inl e
      | Inr result \<Rightarrow>
          (case py_int result of
             Inl e \<Rightarrow> Inl e
           | Inr r \<Rightarrow> Inr (combo @ [r])))"

fun table_loop :: "pyfunc \<Rightarrow> int list list \<Rightarrow> int list list \<Rightarrow> error + int list list" where
  "table_loop expression_func [] table = Inr table"
| "table_loop expression_func (combo # rest) table =
     (case eval_row expression_func combo of
        Inl e \<Rightarrow> Inl e
      | Inr row \<Rightarrow> table_loop expression_func rest (table @ [row]))"

definition generate_table :: "string list \<Rightarrow> pyfunc \<Rightarrow> error + int list list" where
  "generate_table variables expression_func =
     (let num_vars = length variables;
          combinations = product_repeat [0, 1] num_vars
      in table_loop expression_func combinations [])"

text \<open>
  The expressions of \<open>and_table\<close>, \<open>or_table\<close>, \<open>xor_table\<close> and \<open>not_table\<close>, and the
  tables these functions return (printing left out).
\<close>

definition and_expr :: pyfunc where
  "and_expr = Fixed 2 (\<lambda>args. case args of [a, b] \<Rightarrow> Inr (PBool (AND [a, b]))
                                | _ \<Rightarrow> Inl TypeError_arguments)"

definition or_expr :: pyfunc where
  "or_expr = Fixed 2 (\<lambda>args. case args of [a, b] \<Rightarrow> Inr (PBool (OR [a, b]))
                               | _ \<Rightarrow> Inl TypeError_arguments)"

definition xor_expr :: pyfunc where
  "xor_expr = Fixed 2 (\<lambda>args. case args of [a, b] \<Rightarrow> map_sum id PBool (XOR [a, b])
                                | _ \<Rightarrow> Inl TypeError_arguments)"

definition not_expr :: pyfunc where
  "not_expr = Fixed 1 (\<lambda>args. case args of [a] \<Rightarrow> Inr (PBool (NOT a))
                                | _ \<Rightarrow> Inl TypeError_arguments)"

definition and_table :: "string list \<Rightarrow> error + int list list" where
  "and_table var_names = generate_table var_names and_expr"

definition or_table :: "string list \<Rightarrow> error + int list list" where
  "or_table var_names = generate_table var_names or_expr"

definition xor_table :: "string list \<Rightarrow> error + int list list" where
  "xor_table var_names = generate_table var_names xor_expr"

definition not_table :: "string list \<Rightarrow> error + int list list" where
  "not_table var_names = generate_table var_names not_expr"

text \<open>Every evaluation of the expression on a combination of \<open>n\<close> bits gives a row.\<close>

definition total_on_bits :: "pyfunc \<Rightarrow> nat \<Rightarrow> bool" where
  "total_on_bits f n =
     list_all (\<lambda>combo. case eval_row f combo of Inl e \<Rightarrow> False | Inr row \<Rightarrow> True)
       (product_repeat [0, 1] n)"

text \<open>The expression returns a boolean on every combination of \<open>n\<close> bits.\<close>

definition boolean_on_bits :: "pyfunc \<Rightarrow> nat \<Rightarrow> bool" where
  "boolean_on_bits f n =
     list_all (\<lambda>combo. case call f (map PInt combo) of
                          Inl e \<Rightarrow> False
                        | Inr v \<Rightarrow> (case v of PBool b \<Rightarrow> True | _ \<Rightarrow> False))
       (product_repeat [0, 1] n)"

text \<open>
  The expression returns a boolean or one of the integers 0 and 1 on every combination
  of \<open>n\<close> bits.
\<close>

definition bit_valued_on_bits :: "pyfunc \<Rightarrow> nat \<Rightarrow> bool" where
  "bit_valued_on_bits f n =
     list_all (\<lambda>combo. case call f (map PInt combo) of
                          Inl e \<Rightarrow> False
                        | Inr v \<Rightarrow> canonical v)
       (product_repeat [0, 1] n)"

text \<open>
  Two more expressions of one variable: \<^verbatim>\<open>lambda a: a\<close>, which returns its argument, and
  \<^verbatim>\<open>lambda a: 2\<close>, whose result is an integer other than 0 and 1.
\<close>

definition identity_expr :: pyfunc where
  "identity_expr = Fixed 1 (\<lambda>args. case args of [a] \<Rightarrow> Inr a
                                     | _ \<Rightarrow> Inl TypeError_arguments)"

definition constant_two_expr :: pyfunc where
  "constant_two_expr = Fixed 1 (\<lambda>args. case args of [a] \<Rightarrow> Inr (PInt 2)
                                         | _ \<Rightarrow> Inl TypeError_arguments)"

text \<open>
  The order the specification names. \<open>counter_bits n k\<close> is the state of an \<open>n\<close>-bit
  binary counter after \<open>k\<close> steps, most significant bit first; \<open>lex_before\<close> is the
  lexicographic order on tuples, the first position being the most significant.
\<close>

definition counter_bits :: "nat \<Rightarrow> nat \<Rightarrow> int list" where
  "counter_bits n k = map (\<lambda>i. int ((k div 2 ^ (n - 1 - i)) mod 2)) [0..<n]"

fun lex_before :: "int list \<Rightarrow> int list \<Rightarrow> bool" where
  "lex_before [] [] = False"
| "lex_before [] (y # ys) = True"
| "lex_before (x # xs) [] = False"
| "lex_before (x # xs) (y # ys) = (x < y \<or> (x = y \<and> lex_before xs ys))"

section \<open>Number systems (\<^verbatim>\<open>number_systems.py\<close>)\<close>

text \<open>
  \<^verbatim>\<open>bin(n)\<close>: the binary digits of the magnitude, most significant first, after the prefix
  \<^verbatim>\<open>0b\<close>, or \<^verbatim>\<open>-0b\<close> for a negative number.
\<close>

definition bit_char :: "nat \<Rightarrow> char" where
  "bit_char d = (if d = 0 then CHR ''0'' else CHR ''1'')"

fun bin_digits :: "nat \<Rightarrow> string" where
  "bin_digits n =
     (if n < 2 then [bit_char n] else bin_digits (n div 2) @ [bit_char (n mod 2)])"

definition py_bin :: "int \<Rightarrow> string" where
  "py_bin n = (if n < 0 then ''-0b'' @ bin_digits (nat (- n)) else ''0b'' @ bin_digits (nat n))"

definition decimal_to_binary :: "int \<Rightarrow> string" where
  "decimal_to_binary decimal = (if decimal = 0 then ''0'' else drop 2 (py_bin decimal))"

text \<open>
  \<^verbatim>\<open>int(s, base)\<close> for an ASCII string and a base from 2 to 36: white space around the
  literal is dropped; then come an optional sign, an optional base prefix (\<^verbatim>\<open>0b\<close>,
  \<^verbatim>\<open>0o\<close> or \<^verbatim>\<open>0x\<close>, in either case, for the bases 2, 8 and 16), which one underscore may
  follow, and the digits, with single underscores allowed between them. Anything else
  raises \<^verbatim>\<open>ValueError\<close>.
\<close>

definition is_space :: "char \<Rightarrow> bool" where
  "is_space c = (let n = (of_char c :: nat) in (9 \<le> n \<and> n \<le> 13) \<or> n = 32)"

definition strip :: "string \<Rightarrow> string" where
  "strip s = rev (dropWhile is_space (rev (dropWhile is_space s)))"

definition digit_value :: "char \<Rightarrow> nat option" where
  "digit_value c =
     (let n = (of_char c :: nat)
      in if 48 \<le> n \<and> n \<le> 57 then Some (n - 48)
         else if 97 \<le> n \<and> n \<le> 122 then Some (n - 87)
         else if 65 \<le> n \<and> n \<le> 90 then Some (n - 55)
         else None)"

text \<open>
  The digits, read left to right; \<open>prev_underscore\<close> says that the character before
  was an underscore, which may be followed neither by another one nor by the end.
\<close>

fun scan_digits :: "nat \<Rightarrow> bool \<Rightarrow> nat \<Rightarrow> string \<Rightarrow> nat option" where
  "scan_digits base prev_underscore acc [] = (if prev_underscore then None else Some acc)"
| "scan_digits base prev_underscore acc (c # cs) =
     (if c = CHR ''_'' then
        (if prev_underscore then None else scan_digits base True acc cs)
      else
        (case digit_value c of
           None \<Rightarrow> None
         | Some d \<Rightarrow> if d < base then scan_digits base False (acc * base + d) cs else None))"

definition split_sign :: "string \<Rightarrow> bool \<times> string" where
  "split_sign s =
     (case s of
        [] \<Rightarrow> (False, s)
      | c # cs \<Rightarrow>
          if c = CHR ''-'' then (True, cs)
          else if c = CHR ''+'' then (False, cs)
          else (False, s))"

definition is_prefix_letter :: "nat \<Rightarrow> char \<Rightarrow> bool" where
  "is_prefix_letter base c =
     ((base = 16 \<and> (c = CHR ''x'' \<or> c = CHR ''X''))
      \<or> (base = 8 \<and> (c = CHR ''o'' \<or> c = CHR ''O''))
      \<or> (base = 2 \<and> (c = CHR ''b'' \<or> c = CHR ''B'')))"

definition drop_base_prefix :: "nat \<Rightarrow> string \<Rightarrow> string" where
  "drop_base_prefix base s =
     (case s of
        c0 # c1 # cs \<Rightarrow>
          if c0 = CHR ''0'' \<and> is_prefix_letter base c1 then
            (case cs of
               [] \<Rightarrow> cs
             | u # cs' \<Rightarrow> if u = CHR ''_'' then cs' else cs)
          else s
      | _ \<Rightarrow> s)"

definition py_int_str :: "nat \<Rightarrow> string \<Rightarrow> error + int" where
  "py_int_str base s =
     (case split_sign (strip s) of
        (negative, unsigned) \<Rightarrow>
          (let digits = drop_base_prefix base unsigned
           in if digits = [] then Inl ValueError
              else if hd digits = CHR ''_'' then Inl ValueError
              else case scan_digits base False 0 digits of
                     None \<Rightarrow> Inl ValueError
                   | Some v \<Rightarrow> Inr (if negative then - int v else int v)))"

definition binary_to_decimal :: "string \<Rightarrow> error + int" where
  "binary_to_decimal binary = py_int_str 2 binary"

definition hex_to_decimal :: "string \<Rightarrow> error + int" where
  "hex_to_decimal hex_val = py_int_str 16 hex_val"

definition hex_to_binary :: "string \<Rightarrow> error + string" where
  "hex_to_binary hex_val =
     (case hex_to_decimal hex_val of
        Inl e \<Rightarrow> Inl e
      | Inr decimal \<Rightarrow> Inr (decimal_to_binary decimal))"

section \<open>Properties of the gates\<close>

lemma py_add_canonical:
  "canonical x \<Longrightarrow> py_add acc x = Inr (acc + (if truthy x then 1 else 0))"
  by (cases x) auto

lemma py_sum_canonical:
  "list_all canonical xs \<Longrightarrow> py_sum acc xs = Inr (acc + int (truthy_count xs))"
proof (induction xs arbitrary: acc)
  case Nil
  show ?case by (simp add: truthy_count_def)
next
  case (Cons x xs)
  from Cons.prems have cx: "canonical x" and cxs: "list_all canonical xs"
    by simp_all
  show ?case
    using Cons.IH [OF cxs] py_add_canonical [OF cx]
    by (simp add: truthy_count_def)
qed

text \<open>
  Claim C4. On the empty input sequence the gates return their identity values:
  \<open>AND()\<close> is true, \<open>OR()\<close> is false and \<open>XOR()\<close> is false.
\<close>

theorem gates_empty_input:
  "AND [] = True \<and> OR [] = False \<and> XOR [] = Inr False"
  by (simp add: AND_def OR_def XOR_def)

text \<open>
  Claim C5, as stated, fails: \<open>XOR\<close> adds its inputs up instead of counting the truthy
  ones, so the single truthy input 2 gives false, and an input that cannot be added to
  an integer is rejected with a type error.
\<close>

theorem XOR_truthy_counterexample:
  "truthy_count [PInt 2] = 1 \<and> XOR [PInt 2] = Inr False
   \<and> XOR [PNone] = Inl TypeError_operand"
  by (simp add: truthy_count_def XOR_def)

text \<open>
  Claim C5, amended. For every sequence of inputs that are booleans or the integers 0
  and 1, \<open>XOR\<close> raises no error and returns true exactly when the number of truthy
  inputs is odd.
\<close>

theorem XOR_odd_truthy_count:
  assumes "list_all canonical inputs"
  shows "XOR inputs = Inr (odd (truthy_count inputs))"
proof (cases "inputs = []")
  case True
  then show ?thesis by (simp add: XOR_def truthy_count_def)
next
  case False
  have "(int (truthy_count inputs) mod 2 = 1) = odd (truthy_count inputs)"
    by presburger
  with False py_sum_canonical [OF assms, of 0] show ?thesis
    by (simp add: XOR_def)
qed

theorem XOR_odd_truthy_count_witness:
  "list_all canonical [PBool True, PInt 1, PBool True]
   \<and> XOR [PBool True, PInt 1, PBool True] = Inr True"
  using XOR_odd_truthy_count [of "[PBool True, PInt 1, PBool True]"]
  by (simp add: truthy_count_def)

text \<open>
  Claim C6. The derived gates are the negations of their base gates: \<open>NAND\<close> is
  \<open>NOT\<close> applied to the result of \<open>AND\<close>, \<open>NOR\<close> is \<open>NOT\<close> applied to the result of
  \<open>OR\<close>, and \<open>XNOR\<close> is \<open>NOT\<close> applied to the result of \<open>XOR\<close> (an error of \<open>XOR\<close>
  is passed on); so each returns the opposite truth value of its base gate.
\<close>

theorem derived_gates_negate:
  "NAND xs = NOT (PBool (AND xs)) \<and> NAND xs = (\<not> AND xs)
   \<and> NOR xs = NOT (PBool (OR xs)) \<and> NOR xs = (\<not> OR xs)
   \<and> XNOR xs = map_sum id (\<lambda>r. NOT (PBool r)) (XOR xs)
   \<and> XNOR xs = map_sum id (\<lambda>r. \<not> r) (XOR xs)
   \<and> NAND [PBool a, PBool b] = NOT (PBool (AND [PBool a, PBool b]))"
  by (cases "XOR xs") (simp_all add: NAND_def NOR_def XNOR_def NOT_def)

section \<open>The enumeration of the combinations\<close>

lemma product_repeat_0: "product_repeat pool 0 = [[]]"
  by (simp add: product_repeat_def)

lemma product_repeat_Suc:
  "product_repeat pool (Suc n) = product_step pool (product_repeat pool n)"
proof -
  have "replicate (Suc n) pool = replicate n pool @ [pool]"
    by (simp add: replicate_append_same)
  then show ?thesis
    unfolding product_repeat_def by (simp only: foldl_append foldl.simps)
qed

lemma set_product_step:
  "set (product_step pool result) = {x @ [y] | x y. x \<in> set result \<and> y \<in> set pool}"
  by (auto simp: product_step_def)

lemma set_product_repeat:
  "set (product_repeat pool n) = {xs. length xs = n \<and> set xs \<subseteq> set pool}"
proof (induction n)
  case 0
  show ?case by (auto simp: product_repeat_0)
next
  case (Suc n)
  show ?case
  proof (rule set_eqI)
    fix xs :: "'a list"
    show "xs \<in> set (product_repeat pool (Suc n))
            \<longleftrightarrow> xs \<in> {xs. length xs = Suc n \<and> set xs \<subseteq> set pool}"
    proof (cases xs rule: rev_cases)
      case Nil
      then show ?thesis
        by (simp add: product_repeat_Suc set_product_step)
    next
      case (snoc ys y)
      then show ?thesis
        by (auto simp: product_repeat_Suc set_product_step Suc.IH)
    qed
  qed
qed

lemma length_product_step:
  "length (product_step pool result) = length result * length pool"
  by (induction result) (simp_all add: product_step_def)

lemma length_product_repeat: "length (product_repeat pool n) = length pool ^ n"
  by (induction n) (simp_all add: product_repeat_0 product_repeat_Suc length_product_step)

lemma counter_bits_0: "counter_bits 0 k = []"
  by (simp add: counter_bits_def)

lemma counter_bits_Suc:
  "counter_bits (Suc n) k = counter_bits n (k div 2) @ [int (k mod 2)]"
proof -
  have "(k div 2 ^ (n - i)) = (k div 2) div 2 ^ (n - 1 - i)" if "i < n" for i
  proof -
    from that have "n - i = Suc (n - 1 - i)" by simp
    then show ?thesis by (simp add: div_mult2_eq)
  qed
  then show ?thesis
    by (simp add: counter_bits_def)
qed

lemma product_step_bits_map:
  "product_step [0, 1] (map g [0..<m])
     = map (\<lambda>k. g (k div 2) @ [int (k mod 2)]) [0..<2 * m]"
proof (induction m)
  case 0
  show ?case by (simp add: product_step_def)
next
  case (Suc m)
  have "product_step [0, 1] (map g [0..<Suc m])
          = product_step [0, 1] (map g [0..<m]) @ [g m @ [0], g m @ [1]]"
    by (simp add: product_step_def)
  moreover have "[0..<2 * Suc m] = [0..<2 * m] @ [2 * m, Suc (2 * m)]"
    by simp
  ultimately show ?case
    using Suc.IH by simp
qed

lemma product_repeat_counter:
  "product_repeat [0, 1] n = map (counter_bits n) [0..<2 ^ n]"
proof (induction n)
  case 0
  show ?case by (simp add: product_repeat_0 counter_bits_0)
next
  case (Suc n)
  show ?case
    by (simp add: product_repeat_Suc Suc.IH product_step_bits_map counter_bits_Suc)
qed


lemma lex_before_irrefl: "\<not> lex_before xs xs"
  by (induction xs) simp_all

lemma lex_before_snoc:
  "length xs = length ys \<Longrightarrow>
     lex_before (xs @ [a]) (ys @ [b]) \<longleftrightarrow> lex_before xs ys \<or> (xs = ys \<and> a < b)"
  by (induction xs ys rule: list_induct2) auto

lemma length_counter_bits: "length (counter_bits n k) = n"
  by (simp add: counter_bits_def)

lemma counter_bits_mono:
  "i < j \<Longrightarrow> j < 2 ^ n \<Longrightarrow> lex_before (counter_bits n i) (counter_bits n j)"
proof (induction n arbitrary: i j)
  case 0
  then show ?case by simp
next
  case (Suc n)
  from Suc.prems have j2: "j div 2 < 2 ^ n" by auto
  have le: "i div 2 \<le> j div 2"
    using Suc.prems(1) by (simp add: div_le_mono)
  have "i mod 2 < j mod 2" if "i div 2 = j div 2"
    using Suc.prems(1) that div_mult_mod_eq [of i 2] div_mult_mod_eq [of j 2]
    by linarith
  with le have "i div 2 < j div 2 \<or> (i div 2 = j div 2 \<and> i mod 2 < j mod 2)"
    by linarith
  then show ?case
  proof
    assume "i div 2 < j div 2"
    from Suc.IH [OF this j2] show ?thesis
      by (simp add: counter_bits_Suc lex_before_snoc length_counter_bits)
  next
    assume "i div 2 = j div 2 \<and> i mod 2 < j mod 2"
    then show ?thesis
      by (simp add: counter_bits_Suc lex_before_snoc length_counter_bits)
  qed
qed


lemma sorted_product_repeat:
  "sorted_wrt lex_before (product_repeat [0, 1] n)"
proof -
  have "lex_before (map (counter_bits n) [0..<2 ^ n] ! i) (map (counter_bits n) [0..<2 ^ n] ! j)"
    if "i < j" and "j < 2 ^ n" for i j
  proof -
    from that have "i < 2 ^ n" by simp
    with that show ?thesis by (simp add: counter_bits_mono)
  qed
  then show ?thesis
    by (simp add: product_repeat_counter sorted_wrt_iff_nth_less)
qed

lemma sorted_wrt_lex_distinct: "sorted_wrt lex_before xss \<Longrightarrow> distinct xss"
  by (induction xss) (auto simp: lex_before_irrefl)

lemma distinct_product_repeat: "distinct (product_repeat [0, 1::int] n)"
  by (rule sorted_wrt_lex_distinct [OF sorted_product_repeat])

section \<open>The loop of \<open>generate_table\<close>\<close>

lemma eval_row_Inr:
  "eval_row f combo = Inr row \<longleftrightarrow>
     (\<exists>v r. call f (map PInt combo) = Inr v \<and> py_int v = Inr r \<and> row = combo @ [r])"
  by (auto simp: eval_row_def split: sum.splits)


lemma table_loop_rows:
  "list_all2 (\<lambda>combo row. eval_row f combo = Inr row) combos rows \<Longrightarrow>
     table_loop f combos acc = Inr (acc @ rows)"
  by (induction combos rows arbitrary: acc rule: list_all2_induct) simp_all


lemma table_loop_Inr_rows:
  "table_loop f combos acc = Inr table \<Longrightarrow>
     \<exists>rows. table = acc @ rows \<and> list_all2 (\<lambda>combo row. eval_row f combo = Inr row) combos rows"
proof (induction combos arbitrary: acc)
  case Nil
  then show ?case by simp
next
  case (Cons combo rest)
  show ?case
  proof (cases "eval_row f combo")
    case (Inl e)
    with Cons.prems show ?thesis by simp
  next
    case (Inr row)
    with Cons.prems have "table_loop f rest (acc @ [row]) = Inr table" by simp
    from Cons.IH [OF this] obtain rows' where
      t: "table = (acc @ [row]) @ rows'" and
      r: "list_all2 (\<lambda>combo row. eval_row f combo = Inr row) rest rows'"
      by blast
    from r Inr have "list_all2 (\<lambda>combo row. eval_row f combo = Inr row) (combo # rest) (row # rows')"
      by simp
    moreover from t have "table = acc @ row # rows'" by simp
    ultimately show ?thesis by blast
  qed
qed


lemma table_loop_Inr:
  "table_loop f combos [] = Inr table \<longleftrightarrow>
     list_all2 (\<lambda>combo row. eval_row f combo = Inr row) combos table"
  using table_loop_rows [of f combos table "[]"] table_loop_Inr_rows [of f combos "[]" table]
  by auto


lemma generate_table_Inr:
  "generate_table variables f = Inr table \<longleftrightarrow>
     list_all2 (\<lambda>combo row. eval_row f combo = Inr row)
       (product_repeat [0, 1] (length variables)) table"
  by (simp add: generate_table_def table_loop_Inr)


lemma rows_take:
  "list_all2 (\<lambda>combo row. eval_row f combo = Inr row) combos rows \<Longrightarrow>
   \<forall>combo \<in> set combos. length combo = n \<Longrightarrow> map (take n) rows = combos"
proof (induction combos rows rule: list_all2_induct)
  case Nil
  show ?case by simp
next
  case (Cons combo combos row rows)
  from Cons.hyps(1) obtain r where row: "row = combo @ [r]"
    unfolding eval_row_Inr by blast
  from Cons.prems have len: "length combo = n" and rest: "\<forall>c \<in> set combos. length c = n"
    by simp_all
  from Cons.IH [OF rest] row len show ?case by simp
qed

lemma generate_table_inputs:
  assumes "generate_table variables f = Inr table"
  shows "map (take (length variables)) table = product_repeat [0, 1] (length variables)"
proof -
  have len: "\<forall>combo \<in> set (product_repeat [0, 1::int] (length variables)).
          length combo = length variables"
    by (simp add: set_product_repeat)
  from assms have "list_all2 (\<lambda>combo row. eval_row f combo = Inr row)
       (product_repeat [0, 1] (length variables)) table"
    by (simp only: generate_table_Inr)
  from rows_take [OF this len] show ?thesis .
qed

lemma generate_table_total:
  "total_on_bits f (length variables) \<longleftrightarrow> (\<exists>table. generate_table variables f = Inr table)"
proof -
  have "list_all (\<lambda>combo. case eval_row f combo of Inl e \<Rightarrow> False | Inr row \<Rightarrow> True) combos
          \<longleftrightarrow> (\<exists>rows. list_all2 (\<lambda>combo row. eval_row f combo = Inr row) combos rows)"
    for combos
  proof (induction combos)
    case Nil
    show ?case by simp
  next
    case (Cons c cs)
    show ?case
      by (cases "eval_row f c") (auto simp: Cons.IH list_all2_Cons1)
  qed
  then show ?thesis
    by (simp add: total_on_bits_def generate_table_Inr)
qed

lemma product_repeat_nonempty: "product_repeat [0, 1::int] n \<noteq> []"
proof
  assume "product_repeat [0, 1::int] n = []"
  then have "length (product_repeat [0, 1::int] n) = 0" by simp
  then show False by (simp add: length_product_repeat)
qed

lemma product_repeat_2: "product_repeat [0, 1::int] 2 = [[0, 0], [0, 1], [1, 0], [1, 1]]"
  by (simp add: product_repeat_def product_step_def numeral_2_eq_2)

lemma boolean_on_bits_call:
  assumes "boolean_on_bits f n" and "combo \<in> set (product_repeat [0, 1] n)"
  shows "\<exists>b. call f (map PInt combo) = Inr (PBool b)"
proof -
  from assms have c: "(case call f (map PInt combo) of
                      Inl e \<Rightarrow> False
                    | Inr v \<Rightarrow> (case v of PBool b \<Rightarrow> True | _ \<Rightarrow> False))"
    by (simp add: boolean_on_bits_def list_all_iff)
  show ?thesis
  proof (cases "call f (map PInt combo)")
    case (Inl e)
    with c show ?thesis by simp
  next
    case (Inr v)
    with c show ?thesis by (cases v) simp_all
  qed
qed

lemma boolean_on_bits_total:
  assumes "boolean_on_bits f n"
  shows "total_on_bits f n"
proof -
  have "case eval_row f combo of Inl e \<Rightarrow> False | Inr row \<Rightarrow> True"
    if "combo \<in> set (product_repeat [0, 1] n)" for combo
  proof -
    from boolean_on_bits_call [OF assms that] obtain b
      where "call f (map PInt combo) = Inr (PBool b)" ..
    then show ?thesis by (simp add: eval_row_def)
  qed
  then show ?thesis
    by (simp add: total_on_bits_def list_all_iff)
qed

lemma list_all2_row_source:
  assumes "list_all2 P xs ys" and "y \<in> set ys"
  shows "\<exists>x \<in> set xs. P x y"
proof -
  from assms(2) obtain i where i: "i < length ys" and y: "ys ! i = y"
    by (auto simp: in_set_conv_nth)
  from assms(1) i have "i < length xs" and "P (xs ! i) (ys ! i)"
    by (simp_all add: list_all2_conv_all_nth)
  with y show ?thesis by (metis nth_mem)
qed

text \<open>
  The two conditions on an expression, said without the enumeration: it evaluates, or
  returns a boolean, on every tuple of \<open>n\<close> bits.
\<close>

lemma total_on_bits_iff:
  "total_on_bits f n \<longleftrightarrow>
     (\<forall>combo. length combo = n \<and> set combo \<subseteq> {0, 1} \<longrightarrow> (\<exists>row. eval_row f combo = Inr row))"
proof -
  have "(case eval_row f combo of Inl e \<Rightarrow> False | Inr row \<Rightarrow> True)
          \<longleftrightarrow> (\<exists>row. eval_row f combo = Inr row)" for combo
    by (cases "eval_row f combo") simp_all
  then show ?thesis
    by (simp add: total_on_bits_def list_all_iff set_product_repeat)
qed

lemma boolean_on_bits_iff:
  "boolean_on_bits f n \<longleftrightarrow>
     (\<forall>combo. length combo = n \<and> set combo \<subseteq> {0, 1} \<longrightarrow>
        (\<exists>b. call f (map PInt combo) = Inr (PBool b)))"
proof -
  have "(case call f (map PInt combo) of
           Inl e \<Rightarrow> False
         | Inr v \<Rightarrow> (case v of PBool b \<Rightarrow> True | _ \<Rightarrow> False))
          \<longleftrightarrow> (\<exists>b. call f (map PInt combo) = Inr (PBool b))" for combo
  proof (cases "call f (map PInt combo)")
    case (Inl e)
    then show ?thesis by simp
  next
    case (Inr v)
    then show ?thesis by (cases v) simp_all
  qed
  then show ?thesis
    by (simp add: boolean_on_bits_def list_all_iff set_product_repeat)
qed

lemma and_table_example:
  "generate_table [''A'', ''B''] and_expr = Inr [[0, 0, 0], [0, 1, 0], [1, 0, 0], [1, 1, 1]]"
  by code_simp

lemma not_table_example: "generate_table [''A''] not_expr = Inr [[0, 1], [1, 0]]"
  by code_simp

section \<open>Properties of \<open>generate_table\<close>\<close>

text \<open>
  Claim C1. For a list of \<open>N\<close> variable names and an expression that evaluates on every
  combination of \<open>N\<close> bits, \<open>generate_table\<close> returns a table of exactly \<open>2 ^ N\<close> rows,
  no two of them equal. (By \<open>generate_table_total\<close> it returns a table exactly when the
  expression evaluates on every combination.)
\<close>

theorem generate_table_row_count:
  assumes "total_on_bits f (length variables)"
  shows "\<exists>table. generate_table variables f = Inr table
           \<and> length table = 2 ^ length variables \<and> distinct table"
proof -
  from assms obtain table where t: "generate_table variables f = Inr table"
    unfolding generate_table_total ..
  have inputs: "map (take (length variables)) table = product_repeat [0, 1] (length variables)"
    by (rule generate_table_inputs [OF t])
  have "length (map (take (length variables)) table) = 2 ^ length variables"
    unfolding inputs by (simp add: length_product_repeat numeral_2_eq_2)
  then have len: "length table = 2 ^ length variables" by simp
  have "distinct (map (take (length variables)) table)"
    unfolding inputs by (rule distinct_product_repeat)
  then have "distinct table" by (simp add: distinct_map)
  with t len show ?thesis by blast
qed

theorem generate_table_row_count_witness:
  "total_on_bits and_expr (length [''A'', ''B''])
   \<and> (\<exists>table. generate_table [''A'', ''B''] and_expr = Inr table
         \<and> length table = 2 ^ length [''A'', ''B''] \<and> distinct table)"
proof -
  have h: "total_on_bits and_expr (length [''A'', ''B''])"
    by code_simp
  from generate_table_row_count [OF h] h show ?thesis by blast
qed


text \<open>
  Claim C2. The rows come in the order of a binary counter: the input part of row \<open>k\<close>
  is the \<open>N\<close>-bit representation of \<open>k\<close>, most significant bit first; the input parts
  are strictly increasing in the lexicographic order and are all the tuples of
  \<open>N\<close> bits; for two variables they are (0,0), (0,1), (1,0), (1,1).
\<close>

theorem generate_table_counter_order:
  assumes "total_on_bits f (length variables)"
  shows "\<exists>table. generate_table variables f = Inr table
           \<and> map (take (length variables)) table
               = map (counter_bits (length variables)) [0..<2 ^ length variables]
           \<and> sorted_wrt lex_before (map (take (length variables)) table)
           \<and> set (map (take (length variables)) table)
               = {bits. length bits = length variables \<and> set bits \<subseteq> {0, 1}}
           \<and> (length variables = 2 \<longrightarrow>
                 map (take 2) table = [[0, 0], [0, 1], [1, 0], [1, 1]])"
proof -
  from assms obtain table where t: "generate_table variables f = Inr table"
    unfolding generate_table_total ..
  have inputs: "map (take (length variables)) table = product_repeat [0, 1] (length variables)"
    by (rule generate_table_inputs [OF t])
  have counter: "map (take (length variables)) table
                   = map (counter_bits (length variables)) [0..<2 ^ length variables]"
    unfolding inputs by (rule product_repeat_counter)
  have sorted: "sorted_wrt lex_before (map (take (length variables)) table)"
    unfolding inputs by (rule sorted_product_repeat)
  have all: "set (map (take (length variables)) table)
               = {bits. length bits = length variables \<and> set bits \<subseteq> {0, 1}}"
    unfolding inputs by (simp add: set_product_repeat)
  have two: "map (take 2) table = [[0, 0], [0, 1], [1, 0], [1, 1]]"
    if "length variables = 2"
    using inputs that by (simp add: product_repeat_2)
  show ?thesis
  proof (intro exI [of _ table] conjI impI)
    show "generate_table variables f = Inr table" by (rule t)
    show "map (take (length variables)) table
            = map (counter_bits (length variables)) [0..<2 ^ length variables]"
      by (rule counter)
    show "sorted_wrt lex_before (map (take (length variables)) table)" by (rule sorted)
    show "set (map (take (length variables)) table)
            = {bits. length bits = length variables \<and> set bits \<subseteq> {0, 1}}"
      by (rule all)
    show "map (take 2) table = [[0, 0], [0, 1], [1, 0], [1, 1]]"
      if "length variables = 2" by (rule two [OF that])
  qed
qed

theorem generate_table_counter_order_witness:
  "total_on_bits or_expr (length [''A'', ''B''])
   \<and> (\<exists>table. generate_table [''A'', ''B''] or_expr = Inr table
         \<and> map (take 2) table = [[0, 0], [0, 1], [1, 0], [1, 1]])"
proof -
  have h: "total_on_bits or_expr (length [''A'', ''B''])"
    by code_simp
  have l: "length [''A'', ''B''] = 2" by simp
  from generate_table_counter_order [OF h] h l show ?thesis by metis
qed

text \<open>
  Claim C3. No two rows of the table have the same input part: the first \<open>N\<close> entries
  of the rows are pairwise distinct.
\<close>

theorem generate_table_inputs_distinct:
  assumes "total_on_bits f (length variables)"
  shows "\<exists>table. generate_table variables f = Inr table
           \<and> distinct (map (take (length variables)) table)"
proof -
  from assms obtain table where t: "generate_table variables f = Inr table"
    unfolding generate_table_total ..
  have "distinct (map (take (length variables)) table)"
    unfolding generate_table_inputs [OF t] by (rule distinct_product_repeat)
  with t show ?thesis by blast
qed

theorem generate_table_inputs_distinct_witness:
  "total_on_bits xor_expr (length [''A'', ''B''])
   \<and> (\<exists>table. generate_table [''A'', ''B''] xor_expr = Inr table
         \<and> distinct (map (take (length [''A'', ''B''])) table))"
proof -
  have h: "total_on_bits xor_expr (length [''A'', ''B''])"
    by code_simp
  from generate_table_inputs_distinct [OF h] h show ?thesis by blast
qed

text \<open>
  Claim C7. When the expression takes a number of arguments other than the number of
  variable names, \<open>generate_table\<close> raises the argument error of the first call: no
  table is returned, whatever the body of the expression is.
\<close>

theorem generate_table_arity_mismatch:
  assumes "k \<noteq> length variables"
  shows "generate_table variables (Fixed k body) = Inl TypeError_arguments"
proof -
  obtain combo rest where p: "product_repeat [0, 1::int] (length variables) = combo # rest"
    using product_repeat_nonempty [of "length variables"] by (auto simp: neq_Nil_conv)
  have "combo \<in> set (product_repeat [0, 1::int] (length variables))"
    unfolding p by simp
  then have "length combo = length variables"
    by (simp add: set_product_repeat)
  with assms have "eval_row (Fixed k body) combo = Inl TypeError_arguments"
    by (simp add: eval_row_def)
  then show ?thesis
    by (simp add: generate_table_def p)
qed

theorem generate_table_arity_mismatch_witness:
  "(2::nat) \<noteq> length [''A''] \<and> and_table [''A''] = Inl TypeError_arguments"
proof -
  have h: "(2::nat) \<noteq> length [''A'']" by simp
  from generate_table_arity_mismatch [OF h] h show ?thesis
    by (simp add: and_table_def and_expr_def)
qed

lemma canonical_py_int: "canonical v \<Longrightarrow> py_int v = Inr (if truthy v then 1 else 0)"
  by (cases v) auto

lemma bit_valued_on_bits_call:
  assumes "bit_valued_on_bits f n" and "combo \<in> set (product_repeat [0, 1] n)"
  shows "\<exists>v. call f (map PInt combo) = Inr v \<and> canonical v"
proof -
  from assms have c: "(case call f (map PInt combo) of Inl e \<Rightarrow> False | Inr v \<Rightarrow> canonical v)"
    by (simp add: bit_valued_on_bits_def list_all_iff)
  show ?thesis
  proof (cases "call f (map PInt combo)")
    case (Inl e)
    with c show ?thesis by simp
  next
    case (Inr v)
    with c show ?thesis by simp
  qed
qed

lemma bit_valued_eval_row:
  assumes "call f (map PInt combo) = Inr v" and "canonical v"
  shows "eval_row f combo = Inr (combo @ [if truthy v then 1 else 0])"
  using assms(1) canonical_py_int [OF assms(2)] by (simp add: eval_row_def)

lemma bit_valued_on_bits_total:
  assumes "bit_valued_on_bits f n"
  shows "total_on_bits f n"
proof -
  have "case eval_row f combo of Inl e \<Rightarrow> False | Inr row \<Rightarrow> True"
    if "combo \<in> set (product_repeat [0, 1] n)" for combo
  proof -
    from bit_valued_on_bits_call [OF assms that] obtain v
      where "call f (map PInt combo) = Inr v" and "canonical v" by blast
    from bit_valued_eval_row [OF this] show ?thesis by simp
  qed
  then show ?thesis
    by (simp add: total_on_bits_def list_all_iff)
qed

lemma boolean_on_bits_bit_valued:
  assumes "boolean_on_bits f n"
  shows "bit_valued_on_bits f n"
proof -
  have "case call f (map PInt combo) of Inl e \<Rightarrow> False | Inr v \<Rightarrow> canonical v"
    if "combo \<in> set (product_repeat [0, 1] n)" for combo
  proof -
    from boolean_on_bits_call [OF assms that] obtain b
      where "call f (map PInt combo) = Inr (PBool b)" ..
    then show ?thesis by simp
  qed
  then show ?thesis
    by (simp add: bit_valued_on_bits_def list_all_iff)
qed

lemma bit_valued_on_bits_iff:
  "bit_valued_on_bits f n \<longleftrightarrow>
     (\<forall>combo. length combo = n \<and> set combo \<subseteq> {0, 1} \<longrightarrow>
        (\<exists>v. call f (map PInt combo) = Inr v \<and> canonical v))"
proof -
  have "(case call f (map PInt combo) of Inl e \<Rightarrow> False | Inr v \<Rightarrow> canonical v)
          \<longleftrightarrow> (\<exists>v. call f (map PInt combo) = Inr v \<and> canonical v)" for combo
    by (cases "call f (map PInt combo)") simp_all
  then show ?thesis
    by (simp add: bit_valued_on_bits_def list_all_iff set_product_repeat)
qed

text \<open>
  Claim C8, as stated, fails: the result of the expression is converted with \<^verbatim>\<open>int\<close> and
  not reduced to a truth value, so the expression \<^verbatim>\<open>lambda a: 2\<close> gives rows that end
  in 2.
\<close>

theorem generate_table_rows_counterexample:
  "generate_table [''A''] constant_two_expr = Inr [[0, 2], [1, 2]]
   \<and> \<not> set [0, 2 :: int] \<subseteq> {0, 1}"
proof -
  have "generate_table [''A''] constant_two_expr = Inr [[0, 2], [1, 2]]"
    by code_simp
  then show ?thesis by simp
qed

text \<open>
  Claim C8, amended. For every expression of matching arity whose result on every
  combination of input bits is a boolean or the integer 0 or 1, \<open>generate_table\<close>
  returns a table whose \<open>k\<close>-th row is the \<open>k\<close>-th combination of input bits followed
  by the result of the expression on that combination converted to an integer, 1 for
  a true result and 0 for a false one; every entry of every row is 0 or 1.
\<close>

theorem generate_table_rows_bit_valued:
  assumes "bit_valued_on_bits f (length variables)"
  shows "\<exists>table. generate_table variables f = Inr table
           \<and> list_all2
               (\<lambda>combo row. \<exists>v. call f (map PInt combo) = Inr v \<and> canonical v
                                \<and> row = combo @ [if truthy v then 1 else 0])
               (map (counter_bits (length variables)) [0..<2 ^ length variables]) table
           \<and> (\<forall>row \<in> set table. length row = Suc (length variables) \<and> set row \<subseteq> {0, 1})"
proof -
  let ?combos = "product_repeat [0, 1::int] (length variables)"
  let ?R = "\<lambda>combo row. \<exists>v. call f (map PInt combo) = Inr v \<and> canonical v
                            \<and> row = combo @ [if truthy v then 1 else 0]"
  from bit_valued_on_bits_total [OF assms] obtain table
    where t: "generate_table variables f = Inr table"
    unfolding generate_table_total ..
  then have rows: "list_all2 (\<lambda>combo row. eval_row f combo = Inr row) ?combos table"
    by (simp only: generate_table_Inr)
  have step: "?R combo row"
    if c: "combo \<in> set ?combos" and e: "eval_row f combo = Inr row" for combo row
  proof -
    from bit_valued_on_bits_call [OF assms c] obtain v
      where v: "call f (map PInt combo) = Inr v" and cv: "canonical v" by blast
    from bit_valued_eval_row [OF v cv] e
    have "row = combo @ [if truthy v then 1 else 0]" by simp
    with v cv show ?thesis by blast
  qed
  have len: "length ?combos = length table"
    by (rule list_all2_lengthD [OF rows])
  have "?R (?combos ! i) (table ! i)" if "i < length ?combos" for i
  proof -
    from that have "?combos ! i \<in> set ?combos" by (rule nth_mem)
    moreover from rows that have "eval_row f (?combos ! i) = Inr (table ! i)"
      by (simp add: list_all2_conv_all_nth)
    ultimately show ?thesis by (rule step)
  qed
  with len have "list_all2 ?R ?combos table"
    by (simp add: list_all2_conv_all_nth)
  then have positional:
    "list_all2 ?R (map (counter_bits (length variables)) [0..<2 ^ length variables]) table"
    by (simp only: product_repeat_counter)
  have bits: "length row = Suc (length variables) \<and> set row \<subseteq> {0, 1}"
    if "row \<in> set table" for row
  proof -
    from list_all2_row_source [OF rows that] obtain combo
      where c: "combo \<in> set ?combos" and e: "eval_row f combo = Inr row"
      by blast
    from step [OF c e] obtain v where r: "row = combo @ [if truthy v then 1 else 0]"
      by blast
    from c have "length combo = length variables" and "set combo \<subseteq> {0, 1}"
      by (simp_all add: set_product_repeat)
    with r show ?thesis by auto
  qed
  show ?thesis
  proof (intro exI [of _ table] conjI ballI)
    show "generate_table variables f = Inr table" by (rule t)
    show "list_all2 ?R (map (counter_bits (length variables)) [0..<2 ^ length variables]) table"
      by (rule positional)
    show "length row = Suc (length variables)" if "row \<in> set table" for row
      using bits [OF that] by simp
    show "set row \<subseteq> {0, 1}" if "row \<in> set table" for row
      using bits [OF that] by simp
  qed
qed

theorem generate_table_rows_bit_valued_witness:
  "bit_valued_on_bits identity_expr (length [''A''])
   \<and> generate_table [''A''] identity_expr = Inr [[0, 0], [1, 1]]
   \<and> (\<exists>table. generate_table [''A''] identity_expr = Inr table
         \<and> list_all2
             (\<lambda>combo row. \<exists>v. call identity_expr (map PInt combo) = Inr v \<and> canonical v
                              \<and> row = combo @ [if truthy v then 1 else 0])
             (map (counter_bits (length [''A''])) [0..<2 ^ length [''A'']]) table
         \<and> (\<forall>row \<in> set table. length row = Suc (length [''A'']) \<and> set row \<subseteq> {0, 1}))"
proof -
  have h: "bit_valued_on_bits identity_expr (length [''A''])"
    by code_simp
  have e: "generate_table [''A''] identity_expr = Inr [[0, 0], [1, 1]]"
    by code_simp
  from generate_table_rows_bit_valued [OF h] h e show ?thesis by blast
qed

section \<open>Properties of the number conversions\<close>

declare bin_digits.simps [simp del]

lemma bit_char_cases: "bit_char d = CHR ''0'' \<or> bit_char d = CHR ''1''"
  by (simp add: bit_char_def)

lemma digit_value_bit_char: "d < 2 \<Longrightarrow> digit_value (bit_char d) = Some d"
  by (cases "d = 0") (auto simp: bit_char_def digit_value_def)

lemma bit_char_not_underscore: "bit_char d \<noteq> CHR ''_''"
  by (simp add: bit_char_def)

lemma scan_digits_snoc:
  assumes "scan_digits base u acc cs = Some v"
    and "digit_value c = Some d" and "d < base" and "c \<noteq> CHR ''_''"
  shows "scan_digits base u acc (cs @ [c]) = Some (v * base + d)"
  using assms(1)
proof (induction cs arbitrary: u acc)
  case Nil
  with assms(2-4) show ?case by (simp split: if_splits)
next
  case (Cons a cs)
  show ?case
  proof (cases "a = CHR ''_''")
    case True
    with Cons.prems have "\<not> u" and "scan_digits base True acc cs = Some v"
      by (simp_all split: if_splits)
    with True Cons.IH show ?thesis by simp
  next
    case False
    with Cons.prems obtain e where e: "digit_value a = Some e" "e < base"
      and "scan_digits base False (acc * base + e) cs = Some v"
      by (auto split: option.splits if_splits)
    with False Cons.IH show ?thesis by simp
  qed
qed

lemma scan_bin_digits: "scan_digits 2 False 0 (bin_digits n) = Some n"
proof (induction n rule: bin_digits.induct)
  case (1 n)
  show ?case
  proof (cases "n < 2")
    case True
    then show ?thesis
      by (simp add: bin_digits.simps [of n] digit_value_bit_char bit_char_not_underscore)
  next
    case False
    have m: "n mod 2 < 2" by simp
    from scan_digits_snoc [OF "1.IH" [OF False] digit_value_bit_char [OF m] m bit_char_not_underscore]
    show ?thesis
      using False by (simp add: bin_digits.simps [of n])
  qed
qed

lemma bin_digits_chars: "set (bin_digits n) \<subseteq> {CHR ''0'', CHR ''1''}"
proof (induction n rule: bin_digits.induct)
  case (1 n)
  show ?case
  proof (cases "n < 2")
    case True
    then show ?thesis
      using bit_char_cases [of n] by (auto simp: bin_digits.simps [of n])
  next
    case False
    with "1.IH" show ?thesis
      using bit_char_cases [of "n mod 2"] by (auto simp: bin_digits.simps [of n])
  qed
qed

lemma bin_digits_nonempty: "bin_digits n \<noteq> []"
  by (simp add: bin_digits.simps [of n])

lemma not_space_bit: "c \<in> {CHR ''0'', CHR ''1''} \<Longrightarrow> \<not> is_space c"
  by (auto simp: is_space_def)

lemma strip_bits:
  assumes "s \<noteq> []" and "set s \<subseteq> {CHR ''0'', CHR ''1''}"
  shows "strip s = s"
proof -
  from assms have "\<not> is_space (hd s)"
    by (intro not_space_bit) (auto simp: subset_iff)
  then have front: "dropWhile is_space s = s"
    by (simp add: dropWhile_eq_self_iff)
  from assms have "hd (rev s) \<in> set s"
    by (simp add: hd_rev)
  with assms(2) have "\<not> is_space (hd (rev s))"
    by (intro not_space_bit) auto
  then have "dropWhile is_space (rev s) = rev s"
    by (simp add: dropWhile_eq_self_iff)
  with front show ?thesis by (simp add: strip_def)
qed

lemma split_sign_bits:
  assumes "set s \<subseteq> {CHR ''0'', CHR ''1''}"
  shows "split_sign s = (False, s)"
  using assms by (cases s) (auto simp: split_sign_def)

lemma drop_base_prefix_bits:
  assumes "set s \<subseteq> {CHR ''0'', CHR ''1''}"
  shows "drop_base_prefix 2 s = s"
proof (cases s)
  case Nil
  then show ?thesis by (simp add: drop_base_prefix_def)
next
  case (Cons c0 t)
  show ?thesis
  proof (cases t)
    case Nil
    with Cons show ?thesis by (simp add: drop_base_prefix_def)
  next
    case (Cons c1 cs)
    with assms \<open>s = c0 # t\<close> have "c1 = CHR ''0'' \<or> c1 = CHR ''1''" by auto
    then have "\<not> is_prefix_letter 2 c1"
      by (auto simp: is_prefix_letter_def)
    with Cons \<open>s = c0 # t\<close> show ?thesis by (simp add: drop_base_prefix_def)
  qed
qed

lemma py_int_str_bits:
  assumes "s \<noteq> []" and "set s \<subseteq> {CHR ''0'', CHR ''1''}"
    and "scan_digits 2 False 0 s = Some v"
  shows "py_int_str 2 s = Inr (int v)"
proof -
  from assms(1,2) have "hd s \<in> {CHR ''0'', CHR ''1''}"
    by (cases s) auto
  then have "hd s \<noteq> CHR ''_''" by auto
  with assms show ?thesis
    by (simp add: py_int_str_def strip_bits split_sign_bits drop_base_prefix_bits)
qed

text \<open>
  Claim C10. For every integer \<open>n\<close> that is not negative, converting \<open>n\<close> to binary
  and back gives \<open>n\<close> again, without an error; the binary string of 0 is the single
  character \<open>0\<close>.
\<close>

theorem decimal_binary_roundtrip:
  assumes "0 \<le> n"
  shows "binary_to_decimal (decimal_to_binary n) = Inr n
         \<and> decimal_to_binary 0 = ''0''"
proof -
  have zero: "decimal_to_binary 0 = ''0''"
    by (simp add: decimal_to_binary_def)
  have "binary_to_decimal (decimal_to_binary n) = Inr n"
  proof (cases "n = 0")
    case True
    have "binary_to_decimal ''0'' = Inr 0" by code_simp
    with True zero show ?thesis by simp
  next
    case False
    with assms have d: "decimal_to_binary n = bin_digits (nat n)"
      by (simp add: decimal_to_binary_def py_bin_def)
    from py_int_str_bits [OF bin_digits_nonempty bin_digits_chars scan_bin_digits, of "nat n"]
    have "py_int_str 2 (bin_digits (nat n)) = Inr (int (nat n))" .
    with assms d show ?thesis
      by (simp add: binary_to_decimal_def)
  qed
  with zero show ?thesis by simp
qed

theorem decimal_binary_roundtrip_witness:
  "(0::int) \<le> 10 \<and> decimal_to_binary 10 = ''1010''
   \<and> binary_to_decimal (decimal_to_binary 10) = Inr 10"
proof -
  have h: "(0::int) \<le> 10" by simp
  have d: "decimal_to_binary 10 = ''1010''" by code_simp
  from decimal_binary_roundtrip [OF h] h d show ?thesis by simp
qed

text \<open>
  Claim C9. \<open>decimal_to_binary(255)\<close> is the string \<open>11111111\<close>, and so is
  \<open>hex_to_binary("FF")\<close>.
\<close>

theorem conversion_examples:
  "decimal_to_binary 255 = ''11111111'' \<and> hex_to_binary ''FF'' = Inr ''11111111''"
  by code_simp

end
